theory Spec2Isabelle
  imports Main "HOL-Library.Word" "HOL-Library.Multiset"
begin

section \<open>The sequential-commit aggregator of main.go\<close>

text \<open>
  The program of \<^verbatim>\<open>main.go\<close> starts one goroutine per message offset; every goroutine
  sends its offset into the buffered channel \<^verbatim>\<open>commitChan\<close>. A single goroutine drains
  the channel and keeps two pieces of state: the map \<^verbatim>\<open>commits\<close>, whose keys are the
  offsets received and not yet absorbed, and the variable \<^verbatim>\<open>committed\<close>, the largest
  offset of the contiguous prefix received so far.

  Offsets and the watermark are Go \<^verbatim>\<open>int64\<close> values: 64-bit words, read as two's
  complement by \<^term>\<open>sint\<close>, whose addition wraps around.
\<close>

type_synonym int64 = "64 word"

subsection \<open>State\<close>

text \<open>
  \<^verbatim>\<open>commits := make(map[int64]struct{})\<close>: the values carry nothing (``the keys of a map
  are a set''), so the map is the set of its keys. Assignment \<^verbatim>\<open>commits[val] = struct{}{}\<close> is
  \<^term>\<open>insert\<close>, \<^verbatim>\<open>delete(commits, next)\<close> removes the key, and the lookup
  \<^verbatim>\<open>_, ok := commits[next]\<close> is membership.
  \<^verbatim>\<open>committed\<close> is written by the draining goroutine only, so its atomic load and
  store are a read and a write of the field.
\<close>

record aggregator =
  commits :: "int64 set"
  committed :: int64

text \<open>The state before the first offset is received: an empty map, \<^verbatim>\<open>committed := int64(-1)\<close>.\<close>

definition init :: aggregator where
  "init = \<lparr>commits = {}, committed = - 1\<rparr>"

subsection \<open>The absorb loop\<close>

text \<open>
  \<^verbatim>\<open>
  for ok {
      c = next
      delete(commits, next)
      next = c + 1
      _, ok = commits[next]
  }
  \<close>
  The loop variables are the map, \<^verbatim>\<open>c\<close> and \<^verbatim>\<open>next\<close>; \<^verbatim>\<open>ok\<close> is the membership of
  \<^verbatim>\<open>next\<close>, looked up before every test of the loop condition.
\<close>

function absorb :: "int64 set \<Rightarrow> int64 \<Rightarrow> int64 \<Rightarrow> int64 set \<times> int64" where
  "absorb cs c next =
     (if next \<in> cs then absorb (cs - {next}) next (next + 1) else (cs, c))"
  by pat_completeness auto
termination
proof (relation "measure (\<lambda>(cs, c, n). card cs)")
  fix cs :: "int64 set" and c n :: int64
  assume "n \<in> cs"
  then have "card (cs - {n}) < card cs"
    by (intro card_Diff1_less) simp_all
  then show "((cs - {n}, n, n + 1), (cs, c, n)) \<in> measure (\<lambda>(cs, c, n). card cs)"
    by simp
qed simp

declare absorb.simps [simp del]

subsection \<open>One received offset\<close>

text \<open>The body of \<^verbatim>\<open>for val := range commitChan\<close>.\<close>

definition commitStep :: "aggregator \<Rightarrow> int64 \<Rightarrow> aggregator" where
  "commitStep s val =
     (let cs = insert val (commits s);
          c = committed s;
          next = c + 1;
          (cs', c') = absorb cs c next
      in \<lparr>commits = cs', committed = c'\<rparr>)"

text \<open>The aggregator after the offsets \<open>vals\<close> have been received, in that order.\<close>

definition run :: "int64 list \<Rightarrow> aggregator" where
  "run vals = foldl commitStep init vals"

text \<open>The value stored into \<^verbatim>\<open>committed\<close> after each received offset.\<close>

fun watermarks :: "aggregator \<Rightarrow> int64 list \<Rightarrow> int64 list" where
  "watermarks s [] = []"
| "watermarks s (val # vals) =
     (let s' = commitStep s val in committed s' # watermarks s' vals)"

subsection \<open>The producers\<close>

text \<open>
  \<^verbatim>\<open>for i := int64(0); i < numMsgs; i++ { go func(offset int64) { ... commitChan <- offset }(i) }\<close>:
  the offsets handed to the goroutines, in the order they are started. The order in which
  they reach the channel is any permutation of this list.
\<close>

definition producers :: "int64 \<Rightarrow> int64 list" where
  "producers numMsgs = map of_nat [0 ..< nat (sint numMsgs)]"

subsection \<open>The loop with an iteration budget\<close>

text \<open>
  The same loop, given a budget of evaluations of its condition: \<open>None\<close> when the budget
  runs out before the loop has left.
\<close>

fun absorbFuel :: "nat \<Rightarrow> int64 set \<Rightarrow> int64 \<Rightarrow> int64 \<Rightarrow> (int64 set \<times> int64) option" where
  "absorbFuel 0 cs c next = None"
| "absorbFuel (Suc k) cs c next =
     (if next \<in> cs then absorbFuel k (cs - {next}) next (next + 1) else Some (cs, c))"

subsection \<open>Notions used in the proofs\<close>

text \<open>The offsets of the contiguous prefix \<open>0, \<dots>, c\<close>; empty when \<open>c\<close> is negative.\<close>

definition absorbed :: "int64 \<Rightarrow> int64 set" where
  "absorbed c = {x. 0 \<le> sint x \<and> sint x \<le> sint c}"

text \<open>
  A set of received offsets on which \<^verbatim>\<open>c + 1\<close> never wraps around onto a received
  offset: some non-negative offset, or the least \<^verbatim>\<open>int64\<close>, has not been received.
\<close>

definition wrap_free :: "int64 set \<Rightarrow> bool" where
  "wrap_free S = (\<exists>x. x \<notin> S \<and> (0 \<le> sint x \<or> sint x = - (2 ^ 63)))"

text \<open>
  The state of the aggregator once the offsets \<open>S\<close> have been received: the watermark is at
  least -1, every received offset is in the prefix or in the map, and the loop has left.
\<close>

definition agg_inv :: "int64 set \<Rightarrow> aggregator \<Rightarrow> bool" where
  "agg_inv S s =
     (- 1 \<le> sint (committed s) \<and> absorbed (committed s) \<union> commits s = S
      \<and> committed s + 1 \<notin> commits s)"

section \<open>Arithmetic of \<^verbatim>\<open>int64\<close>\<close>

lemma sint_bounds64: "- (2 ^ 63) \<le> sint (c :: int64)" "sint (c :: int64) < 2 ^ 63"
  using sint_ge [of c] sint_lt [of c] by simp_all

lemma sint_succ:
  assumes "sint (c :: int64) \<noteq> 2 ^ 63 - 1"
  shows "sint (c + 1) = sint c + 1"
proof -
  have "sint (c + 1) = signed_take_bit 63 (sint c + 1)"
    by (simp add: sint_word_add)
  also have "\<dots> = sint c + 1"
    using assms sint_bounds64 [of c] by (intro signed_take_bit_int_eq_self) simp_all
  finally show ?thesis .
qed

lemma sint_inj64: "sint (a :: int64) = sint b \<Longrightarrow> a = b"
  by (rule signed_word_eqI)

lemma sint_of_int64:
  assumes "- (2 ^ 63) \<le> k" "k < 2 ^ 63"
  shows "sint (word_of_int k :: int64) = k"
proof -
  have "sint (word_of_int k :: int64) = signed_take_bit 63 k"
    by (simp add: sint_sbintrunc')
  also have "\<dots> = k"
    using assms by (intro signed_take_bit_int_eq_self) simp_all
  finally show ?thesis .
qed

lemma sint_of_nat64:
  assumes "n < 2 ^ 63"
  shows "sint (of_nat n :: int64) = int n"
proof -
  have "(of_nat n :: int64) = word_of_int (int n)" by simp
  moreover have "int n < 2 ^ 63" using assms by simp
  ultimately show ?thesis by (simp only: sint_of_int64)
qed

lemma absorbed_image: "absorbed c = word_of_int ` {0 .. sint c}"
proof (intro set_eqI iffI)
  fix x assume "x \<in> absorbed c"
  then have "sint x \<in> {0 .. sint c}" by (simp add: absorbed_def)
  then have "word_of_int (sint x) \<in> (word_of_int ` {0 .. sint c} :: int64 set)" by (rule imageI)
  then show "x \<in> word_of_int ` {0 .. sint c}" by simp
next
  fix x :: int64 assume "x \<in> word_of_int ` {0 .. sint c}"
  then obtain k where k: "x = word_of_int k" "0 \<le> k" "k \<le> sint c" by auto
  with sint_bounds64 [of c] have "sint x = k" by (simp add: sint_of_int64)
  with k show "x \<in> absorbed c" by (simp add: absorbed_def)
qed

lemma card_absorbed: "card (absorbed c) = nat (sint c + 1)"
proof -
  have "inj_on (word_of_int :: int \<Rightarrow> int64) {0 .. sint c}"
  proof (rule inj_onI)
    fix a b assume ab: "a \<in> {0 .. sint c}" "b \<in> {0 .. sint c}"
      and e: "(word_of_int a :: int64) = word_of_int b"
    from ab have "sint (word_of_int a :: int64) = a" "sint (word_of_int b :: int64) = b"
      using sint_bounds64 [of c] by (simp_all add: sint_of_int64)
    with e show "a = b" by metis
  qed
  then show ?thesis by (simp add: absorbed_image card_image)
qed

section \<open>The loop invariant\<close>

text \<open>
  While the loop runs, the prefix \<open>0, \<dots>, c\<close> together with the map is the set of
  offsets received so far, and \<^verbatim>\<open>c + 1\<close> does not wrap around as long as that set
  is \<^const>\<open>wrap_free\<close>.
\<close>

lemma sint_max_succ:
  assumes "sint (c :: int64) = 2 ^ 63 - 1"
  shows "sint (c + 1) = - (2 ^ 63)"
proof -
  have "c = word_of_int (sint c)" by simp
  then have "c = word_of_int (2 ^ 63 - 1)" by (simp only: assms)
  then have "c + 1 = (word_of_int (2 ^ 63) :: int64)" by simp
  then show ?thesis by (simp add: sint_sbintrunc')
qed

lemma succ_notin_absorbed: "c + 1 \<notin> absorbed c"
proof (cases "sint c = 2 ^ 63 - 1")
  case True
  then show ?thesis by (simp add: absorbed_def sint_max_succ)
next
  case False
  then show ?thesis by (simp add: absorbed_def sint_succ)
qed

lemma absorbed_succ:
  assumes "sint c \<noteq> 2 ^ 63 - 1" "- 1 \<le> sint c"
  shows "absorbed (c + 1) = insert (c + 1) (absorbed c)"
proof (intro set_eqI iffI)
  fix x assume "x \<in> absorbed (c + 1)"
  then have x: "0 \<le> sint x" "sint x \<le> sint c + 1"
    using assms by (simp_all add: absorbed_def sint_succ)
  show "x \<in> insert (c + 1) (absorbed c)"
  proof (cases "sint x = sint c + 1")
    case True
    then have "sint x = sint (c + 1)" using assms by (simp add: sint_succ)
    then have "x = c + 1" by (rule sint_inj64)
    then show ?thesis by simp
  next
    case False
    with x show ?thesis by (simp add: absorbed_def)
  qed
next
  fix x assume "x \<in> insert (c + 1) (absorbed c)"
  then show "x \<in> absorbed (c + 1)"
    using assms by (auto simp: absorbed_def sint_succ)
qed

lemma no_wrap_step:
  assumes "wrap_free S" "absorbed c \<union> cs = S" "c + 1 \<in> cs"
  shows "sint c \<noteq> 2 ^ 63 - 1"
proof
  assume m: "sint c = 2 ^ 63 - 1"
  from assms(1) obtain x where x: "x \<notin> S" "0 \<le> sint x \<or> sint x = - (2 ^ 63)"
    by (auto simp: wrap_free_def)
  from x(2) show False
  proof
    assume "0 \<le> sint x"
    with m sint_bounds64(2) [of x] have "x \<in> absorbed c" by (simp add: absorbed_def)
    with assms(2) x(1) show False by auto
  next
    assume "sint x = - (2 ^ 63)"
    with m have "sint x = sint (c + 1)" by (simp add: sint_max_succ)
    then have "x = c + 1" by (rule sint_inj64)
    with assms(2,3) x(1) show False by auto
  qed
qed

lemma absorb_inv:
  assumes "wrap_free S" "- 1 \<le> sint c" "absorbed c \<union> cs = S" "n = c + 1"
    and "absorb cs c n = (cs', c')"
  shows "- 1 \<le> sint c' \<and> absorbed c' \<union> cs' = S \<and> c' + 1 \<notin> cs' \<and> sint c \<le> sint c'
    \<and> cs' \<subseteq> cs \<and> (cs \<inter> absorbed c = {} \<longrightarrow> cs' \<inter> absorbed c' = {})"
  using assms
proof (induction cs c n arbitrary: cs' c' rule: absorb.induct)
  case (1 cs c n)
  show ?case
  proof (cases "n \<in> cs")
    case False
    then have "absorb cs c n = (cs, c)" by (simp add: absorb.simps [of cs c n])
    with "1.prems" False show ?thesis by auto
  next
    case True
    with "1.prems" have nw: "sint c \<noteq> 2 ^ 63 - 1" 
      using no_wrap_step [of S c cs] by simp
    with "1.prems" have sn: "sint n = sint c + 1" by (simp add: sint_succ)
    from nw "1.prems" have an: "absorbed n = insert n (absorbed c)" by (simp add: absorbed_succ)
    have "absorb cs c n = absorb (cs - {n}) n (n + 1)"
      using True by (simp add: absorb.simps [of cs c n])
    with "1.prems" have r: "absorb (cs - {n}) n (n + 1) = (cs', c')" by simp
    have "- 1 \<le> sint n" using sn "1.prems" by simp
    moreover have "absorbed n \<union> (cs - {n}) = S" using an True "1.prems" by auto
    ultimately have ih: "- 1 \<le> sint c' \<and> absorbed c' \<union> cs' = S \<and> c' + 1 \<notin> cs' \<and> sint n \<le> sint c'
      \<and> cs' \<subseteq> cs - {n} \<and> ((cs - {n}) \<inter> absorbed n = {} \<longrightarrow> cs' \<inter> absorbed c' = {})"
      using "1.IH" [OF True "1.prems"(1) _ _ refl r] by simp
    have "cs \<inter> absorbed c = {} \<Longrightarrow> (cs - {n}) \<inter> absorbed n = {}"
      using an by auto
    with ih sn show ?thesis by auto
  qed
qed

lemma absorb_strict:
  assumes "wrap_free S" "- 1 \<le> sint c" "absorbed c \<union> cs = S" "c + 1 \<in> cs"
  shows "sint c < sint (snd (absorb cs c (c + 1)))"
proof -
  obtain cs' c' where r: "absorb (cs - {c + 1}) (c + 1) (c + 1 + 1) = (cs', c')"
    by (cases "absorb (cs - {c + 1}) (c + 1) (c + 1 + 1)") 
  from assms have nw: "sint c \<noteq> 2 ^ 63 - 1" by (rule_tac no_wrap_step) 
  then have sn: "sint (c + 1) = sint c + 1" by (rule sint_succ)
  from nw assms have an: "absorbed (c + 1) = insert (c + 1) (absorbed c)" by (simp add: absorbed_succ)
  have "- 1 \<le> sint (c + 1)" using sn assms by simp
  moreover have "absorbed (c + 1) \<union> (cs - {c + 1}) = S" using an assms by auto
  ultimately have "sint (c + 1) \<le> sint c'"
    using absorb_inv [OF assms(1) _ _ refl r] by simp
  moreover have "absorb cs c (c + 1) = (cs', c')" 
    using assms(4) r by (simp add: absorb.simps [of cs c "c + 1"])
  ultimately show ?thesis using sn by simp
qed

lemma wrap_free_mono: "S \<subseteq> T \<Longrightarrow> wrap_free T \<Longrightarrow> wrap_free S"
  by (auto simp: wrap_free_def)

lemma commitStep_inv:
  assumes "wrap_free (insert v S)" "agg_inv S s"
  shows "agg_inv (insert v S) (commitStep s v)" 
    and "sint (committed s) \<le> sint (committed (commitStep s v))"
    and "commits (commitStep s v) \<subseteq> insert v (commits s)"
    and "insert v (commits s) \<inter> absorbed (committed s) = {} 
          \<Longrightarrow> commits (commitStep s v) \<inter> absorbed (committed (commitStep s v)) = {}"
proof -
  obtain cs' c' where r: "absorb (insert v (commits s)) (committed s) (committed s + 1) = (cs', c')"
    by (cases "absorb (insert v (commits s)) (committed s) (committed s + 1)")
  then have st: "commitStep s v = \<lparr>commits = cs', committed = c'\<rparr>"
    by (simp add: commitStep_def)
  from assms(2) have "- 1 \<le> sint (committed s)" 
    and "absorbed (committed s) \<union> insert v (commits s) = insert v S"
    by (auto simp: agg_inv_def)
  from absorb_inv [OF assms(1) this refl r] st
  show "agg_inv (insert v S) (commitStep s v)" 
    and "sint (committed s) \<le> sint (committed (commitStep s v))"
    and "commits (commitStep s v) \<subseteq> insert v (commits s)"
    and "insert v (commits s) \<inter> absorbed (committed s) = {} 
          \<Longrightarrow> commits (commitStep s v) \<inter> absorbed (committed (commitStep s v)) = {}"
    by (simp_all add: agg_inv_def)
qed

lemma run_snoc: "run (vals @ [v]) = commitStep (run vals) v"
  by (simp add: run_def)

lemma run_Nil: "run [] = init"
  by (simp add: run_def)

lemma init_inv: "agg_inv {} init"
  by (simp add: agg_inv_def init_def absorbed_def)

lemma run_inv: "wrap_free (set vals) \<Longrightarrow> agg_inv (set vals) (run vals)"
proof (induction vals rule: rev_induct)
  case Nil
  show ?case by (simp add: run_Nil init_inv)
next
  case (snoc v vals)
  from snoc.prems have w: "wrap_free (insert v (set vals))" by simp
  then have "wrap_free (set vals)" by (rule wrap_free_mono [rotated]) auto
  then have "agg_inv (set vals) (run vals)" by (rule snoc.IH)
  with w show ?case by (simp add: run_snoc commitStep_inv(1))
qed

lemma wrap_free_length:
  assumes "length vals < 2 ^ 63" shows "wrap_free (set vals)"
proof (rule ccontr)
  assume "\<not> wrap_free (set vals)"
  then have all: "\<And>x :: int64. 0 \<le> sint x \<Longrightarrow> x \<in> set vals"
    by (auto simp: wrap_free_def)
  define m :: int64 where "m = word_of_int (2 ^ 63 - 1)"
  have sm: "sint m = 2 ^ 63 - 1" unfolding m_def by (rule sint_of_int64) simp_all
  have "absorbed m \<subseteq> set vals" using all by (auto simp: absorbed_def)
  then have "card (absorbed m) \<le> card (set vals)" by (intro card_mono) simp_all
  also have "\<dots> \<le> length vals" by (rule card_length)
  finally show False using assms by (simp add: card_absorbed sm)
qed

lemma wrap_free_nonneg:
  assumes "\<And>x. x \<in> S \<Longrightarrow> 0 \<le> sint x" shows "wrap_free S"
proof -
  define m :: int64 where "m = word_of_int (- (2 ^ 63))"
  have sm: "sint m = - (2 ^ 63)" unfolding m_def by (rule sint_of_int64) simp_all
  then have "m \<notin> S" using assms [of m] by auto
  with sm show ?thesis by (auto simp: wrap_free_def)
qed

section \<open>What the invariant says about the watermark\<close>

lemma inv_prefix:
  assumes "agg_inv S s" "0 \<le> k" "k \<le> sint (committed s)"
  shows "k \<in> sint ` S"
proof -
  define x :: int64 where "x = word_of_int k"
  have "sint x = k"
    unfolding x_def using assms(2,3) sint_bounds64(2) [of "committed s"]
    by (intro sint_of_int64) simp_all
  moreover from this assms have "x \<in> S" by (auto simp: agg_inv_def absorbed_def)
  ultimately show ?thesis by (metis imageI)
qed

lemma inv_next_missing:
  assumes "agg_inv S s"
  shows "sint (committed s) + 1 \<notin> sint ` S"
proof
  assume "sint (committed s) + 1 \<in> sint ` S"
  then obtain x where x: "x \<in> S" "sint x = sint (committed s) + 1" by auto
  with sint_bounds64(2) [of x] have "sint (committed s) \<noteq> 2 ^ 63 - 1" by simp
  then have "sint (committed s + 1) = sint x" using x by (simp add: sint_succ)
  then have "committed s + 1 = x" by (rule sint_inj64)
  with assms x(1) succ_notin_absorbed [of "committed s"] show False
    by (auto simp: agg_inv_def)
qed

lemma inv_unique:
  assumes "agg_inv S s" "agg_inv S s'"
  shows "committed s = committed s'"
proof -
  have le: "sint (committed a) \<le> sint (committed b)" if "agg_inv S a" "agg_inv S b" for a b
  proof (rule ccontr)
    assume "\<not> sint (committed a) \<le> sint (committed b)"
    moreover from that have "- 1 \<le> sint (committed b)" by (simp add: agg_inv_def)
    ultimately have "sint (committed b) + 1 \<in> sint ` S"
      using that(1) by (intro inv_prefix [of S a]) simp_all
    with inv_next_missing [OF that(2)] show False by simp
  qed
  from le [OF assms] le [OF assms(2,1)] show ?thesis by (intro sint_inj64) simp
qed

lemma run_inv_length: "length vals < 2 ^ 63 \<Longrightarrow> agg_inv (set vals) (run vals)"
  by (intro run_inv wrap_free_length)

lemma wm_lower: "agg_inv S s \<Longrightarrow> - 1 \<le> sint (committed s)"
  by (simp add: agg_inv_def)

lemma wm_largest:
  assumes "agg_inv S s" "\<And>k. 0 \<le> k \<Longrightarrow> k \<le> W \<Longrightarrow> k \<in> sint ` S"
  shows "W \<le> sint (committed s)"
proof (rule ccontr)
  assume "\<not> W \<le> sint (committed s)"
  with wm_lower [OF assms(1)] have "sint (committed s) + 1 \<in> sint ` S"
    by (intro assms(2)) simp_all
  with inv_next_missing [OF assms(1)] show False by simp
qed

lemma wm_below_gap:
  assumes "agg_inv S s" "0 \<le> k" "k \<notin> sint ` S"
  shows "sint (committed s) < k"
proof (rule ccontr)
  assume "\<not> sint (committed s) < k"
  with assms(2) have "k \<in> sint ` S" by (intro inv_prefix [OF assms(1)]) simp_all
  with assms(3) show False by simp
qed

text \<open>The loop leaves with \<^verbatim>\<open>next\<close> absent from the map, whatever the state it started in.\<close>

lemma absorb_exit:
  assumes "absorb cs c n = (cs', c')" "n = c + 1"
  shows "c' + 1 \<notin> cs'"
  using assms
proof (induction cs c n arbitrary: cs' c' rule: absorb.induct)
  case (1 cs c n)
  show ?case
  proof (cases "n \<in> cs")
    case False
    then have "absorb cs c n = (cs, c)" by (simp add: absorb.simps [of cs c n])
    with "1.prems" False show ?thesis by auto
  next
    case True
    then have "absorb cs c n = absorb (cs - {n}) n (n + 1)"
      by (simp add: absorb.simps [of cs c n])
    with "1.prems" have "absorb (cs - {n}) n (n + 1) = (cs', c')" by simp
    then show ?thesis by (rule "1.IH" [OF True _ refl])
  qed
qed

lemma commitStep_exit: "committed (commitStep s v) + 1 \<notin> commits (commitStep s v)"
proof -
  obtain cs' c' where r: "absorb (insert v (commits s)) (committed s) (committed s + 1) = (cs', c')"
    by (cases "absorb (insert v (commits s)) (committed s) (committed s + 1)")
  from absorb_exit [OF r refl] r show ?thesis by (simp add: commitStep_def)
qed

lemma run_exit: "committed (run vals) + 1 \<notin> commits (run vals)"
proof (cases vals rule: rev_cases)
  case Nil
  then show ?thesis by (simp add: run_Nil init_def)
next
  case (snoc ys y)
  then show ?thesis by (simp add: run_snoc commitStep_exit)
qed

lemma commitStep_idle:
  assumes "committed s + 1 \<notin> commits s" "v \<noteq> committed s + 1"
  shows "commitStep s v = \<lparr>commits = insert v (commits s), committed = committed s\<rparr>"
proof -
  from assms have "committed s + 1 \<notin> insert v (commits s)" by auto
  then have "absorb (insert v (commits s)) (committed s) (committed s + 1)
      = (insert v (commits s), committed s)"
    by (simp add: absorb.simps [of "insert v (commits s)" "committed s" "committed s + 1"])
  then show ?thesis by (simp add: commitStep_def)
qed

lemma commitStep_advances:
  assumes "wrap_free (insert v S)" "agg_inv S s" "v = committed s + 1"
  shows "sint (committed s) < sint (committed (commitStep s v))"
proof -
  from assms(2) have "- 1 \<le> sint (committed s)"
    and "absorbed (committed s) \<union> insert v (commits s) = insert v S"
    by (auto simp: agg_inv_def)
  moreover have "committed s + 1 \<in> insert v (commits s)" using assms(3) by simp
  ultimately have "sint (committed s)
      < sint (snd (absorb (insert v (commits s)) (committed s) (committed s + 1)))"
    by (rule absorb_strict [OF assms(1)])
  then show ?thesis by (simp add: commitStep_def split_def Let_def)
qed

lemma watermarks_sorted:
  assumes "agg_inv S s" "wrap_free (S \<union> set vals)"
  shows "sorted (map sint (committed s # watermarks s vals))"
  using assms
proof (induction vals arbitrary: s S)
  case Nil
  show ?case by simp
next
  case (Cons v vals)
  from Cons.prems(2) have w: "wrap_free (insert v S)"
    by (rule wrap_free_mono [rotated]) auto
  from commitStep_inv(1,2) [OF w Cons.prems(1)]
  have i: "agg_inv (insert v S) (commitStep s v)"
    and le: "sint (committed s) \<le> sint (committed (commitStep s v))" .
  from Cons.prems(2) have "wrap_free (insert v S \<union> set vals)" by simp
  with i have "sorted (map sint (committed (commitStep s v) # watermarks (commitStep s v) vals))"
    by (rule Cons.IH)
  with le show ?case by (auto simp: Let_def)
qed

lemma watermarks_nth:
  "i < length vals \<Longrightarrow> watermarks s vals ! i = committed (foldl commitStep s (take (Suc i) vals))"
proof (induction vals arbitrary: s i)
  case Nil
  then show ?case by simp
next
  case (Cons v vals)
  then show ?case by (cases i) (simp_all add: Let_def)
qed

lemma watermarks_run:
  "i < length vals \<Longrightarrow> watermarks init vals ! i = committed (run (take (Suc i) vals))"
  by (simp only: watermarks_nth run_def)

lemma run_disjoint:
  assumes "wrap_free (set vals)" "distinct vals"
  shows "commits (run vals) \<inter> absorbed (committed (run vals)) = {}"
  using assms
proof (induction vals rule: rev_induct)
  case Nil
  show ?case by (simp add: run_Nil init_def)
next
  case (snoc v vals)
  from snoc.prems have w: "wrap_free (insert v (set vals))" by simp
  then have w': "wrap_free (set vals)" by (rule wrap_free_mono [rotated]) auto
  then have i: "agg_inv (set vals) (run vals)" by (rule run_inv)
  from snoc.prems have "v \<notin> set vals" by simp
  with i have "v \<notin> absorbed (committed (run vals))" by (auto simp: agg_inv_def)
  moreover have "commits (run vals) \<inter> absorbed (committed (run vals)) = {}"
    using w' snoc.prems by (intro snoc.IH) simp_all
  ultimately have "insert v (commits (run vals)) \<inter> absorbed (committed (run vals)) = {}"
    by auto
  with commitStep_inv(4) [OF w i] show ?case by (simp add: run_snoc)
qed

lemma card_pending:
  assumes "wrap_free (set vals)" "distinct vals"
  shows "int (card (commits (run vals))) = int (length vals) - (sint (committed (run vals)) + 1)"
proof -
  let ?s = "run vals"
  from assms(1) have i: "agg_inv (set vals) ?s" by (rule run_inv)
  have d: "commits ?s \<inter> absorbed (committed ?s) = {}" using assms by (rule run_disjoint)
  from i have u: "absorbed (committed ?s) \<union> commits ?s = set vals" by (simp add: agg_inv_def)
  have "card (absorbed (committed ?s) \<union> commits ?s)
      = card (absorbed (committed ?s)) + card (commits ?s)"
    using d by (intro card_Un_disjoint) auto
  with u have "card (set vals) = card (absorbed (committed ?s)) + card (commits ?s)" by simp
  moreover have "card (set vals) = length vals" using assms(2) by (rule distinct_card)
  moreover have "int (card (absorbed (committed ?s))) = sint (committed ?s) + 1"
    using wm_lower [OF i] by (simp add: card_absorbed)
  ultimately show ?thesis by simp
qed

lemma sint_producers:
  assumes "0 \<le> sint numMsgs"
  shows "sint ` set (producers numMsgs) = {0 ..< sint numMsgs}"
proof (intro set_eqI iffI)
  fix k assume "k \<in> sint ` set (producers numMsgs)"
  then obtain n where n: "n < nat (sint numMsgs)" "k = sint (of_nat n :: int64)"
    by (auto simp: producers_def)
  from n(1) sint_bounds64(2) [of numMsgs] have "n < 2 ^ 63" by simp
  with n show "k \<in> {0 ..< sint numMsgs}" by (simp add: sint_of_nat64)
next
  fix k assume k: "k \<in> {0 ..< sint numMsgs}"
  then have n: "nat k < nat (sint numMsgs)" by simp
  from k sint_bounds64(2) [of numMsgs] have "nat k < 2 ^ 63" by (simp add: nat_less_iff)
  then have "sint (of_nat (nat k) :: int64) = int (nat k)" by (rule sint_of_nat64)
  with k have "k = sint (of_nat (nat k) :: int64)" by simp
  moreover have "(of_nat (nat k) :: int64) \<in> set (producers numMsgs)"
    using n by (simp add: producers_def)
  ultimately show "k \<in> sint ` set (producers numMsgs)" by (rule image_eqI)
qed

lemma wm_all_producers:
  assumes "0 \<le> sint numMsgs" "set vals = set (producers numMsgs)"
  shows "sint (committed (run vals)) = sint numMsgs - 1"
proof -
  have s: "sint ` set vals = {0 ..< sint numMsgs}"
    using assms by (simp add: sint_producers)
  then have "wrap_free (set vals)" by (intro wrap_free_nonneg) force
  then have i: "agg_inv (set vals) (run vals)" by (rule run_inv)
  have "sint numMsgs \<notin> sint ` set vals" using s by simp
  with i assms(1) have "sint (committed (run vals)) < sint numMsgs" by (rule wm_below_gap)
  moreover have "sint numMsgs - 1 \<le> sint (committed (run vals))"
    using i s by (intro wm_largest [of "set vals"]) simp_all
  ultimately show ?thesis by simp
qed

section \<open>A run on which the watermark wraps around\<close>

text \<open>
  The least \<^verbatim>\<open>int64\<close> is received first and stays in the map; then the offsets
  \<open>0, 1, 2, \<dots>\<close> arrive in order. Once \<open>2\<^sup>6\<^sup>3 - 1\<close> has been absorbed,
  \<^verbatim>\<open>next = c + 1\<close> overflows to the least \<^verbatim>\<open>int64\<close>, which is in the map,
  and the loop stores it into \<^verbatim>\<open>c\<close>.
\<close>

lemma step_in_order:
  assumes "v \<noteq> m" "v + 1 \<noteq> m"
  shows "commitStep \<lparr>commits = {m}, committed = v - 1\<rparr> v = \<lparr>commits = {m}, committed = v\<rparr>"
proof -
  have "absorb {m} v (v + 1) = ({m}, v)"
    using assms by (simp add: absorb.simps [of "{m}" v "v + 1"])
  moreover have "insert v {m} - {v} = {m}" using assms by auto
  ultimately have "absorb (insert v {m}) (v - 1) v = ({m}, v)"
    by (simp add: absorb.simps [of "insert v {m}" "v - 1" v])
  then show ?thesis by (simp add: commitStep_def)
qed

lemma step_wraps:
  assumes "v \<noteq> m" "v + 1 = m"
  shows "commitStep \<lparr>commits = {m}, committed = v - 1\<rparr> v = \<lparr>commits = {}, committed = m\<rparr>"
proof -
  have "absorb {} m (m + 1) = ({}, m)"
    by (simp add: absorb.simps [of "{}" m "m + 1"])
  then have "absorb {m} v m = ({}, m)"
    by (simp add: absorb.simps [of "{m}" v m])
  moreover have "insert v {m} - {v} = {m}" using assms by auto
  ultimately have "absorb (insert v {m}) (v - 1) v = ({}, m)"
    using assms(2) by (simp add: absorb.simps [of "insert v {m}" "v - 1" v])
  then show ?thesis by (simp add: commitStep_def)
qed

lemma of_nat_ne_negative:
  assumes "n < 2 ^ 63" "sint (m :: int64) < 0" shows "of_nat n \<noteq> m"
proof
  assume "of_nat n = m"
  with sint_of_nat64 [OF assms(1)] have "sint m = int n" by simp
  with assms(2) show False by simp
qed

lemma negative_then_counting:
  assumes "n < 2 ^ 63" "sint m < 0"
  shows "run (m # map of_nat [0 ..< n]) = \<lparr>commits = {m}, committed = of_nat n - 1\<rparr>"
  using assms(1)
proof (induction n)
  case 0
  have "0 \<noteq> m" using of_nat_ne_negative [of 0 m] assms(2) by simp
  then have "absorb {m} (- 1) 0 = ({m}, - 1)"
    by (simp add: absorb.simps [of "{m}" "- 1" 0])
  then show ?case by (simp add: run_def init_def commitStep_def)
next
  case (Suc n)
  let ?v = "of_nat n :: int64"
  from Suc have r: "run (m # map of_nat [0 ..< n]) = \<lparr>commits = {m}, committed = ?v - 1\<rparr>"
    by simp
  have ne: "?v \<noteq> m" using Suc.prems assms(2) by (intro of_nat_ne_negative) simp_all
  have "of_nat (Suc n) \<noteq> m" using Suc.prems assms(2) by (rule of_nat_ne_negative)
  then have ne': "?v + 1 \<noteq> m" by (simp add: add.commute)
  have "run (m # map of_nat [0 ..< Suc n]) = commitStep (run (m # map of_nat [0 ..< n])) ?v"
    using run_snoc [of "m # map of_nat [0 ..< n]" ?v] by simp
  also have "\<dots> = \<lparr>commits = {m}, committed = ?v\<rparr>"
    unfolding r using ne ne' by (rule step_in_order)
  finally show ?case by simp
qed

lemma negative_then_all:
  assumes "Suc n = 2 ^ 63" "m = - (2 ^ 63)"
  shows "run (m # map of_nat [0 ..< Suc n]) = \<lparr>commits = {}, committed = m\<rparr>"
proof -
  let ?v = "of_nat n :: int64"
  have sm: "sint m = - (2 ^ 63)" unfolding assms(2) by simp
  have n: "n < 2 ^ 63" using assms(1) by simp
  have r: "run (m # map of_nat [0 ..< n]) = \<lparr>commits = {m}, committed = ?v - 1\<rparr>"
    using n sm by (intro negative_then_counting) simp_all
  have ne: "?v \<noteq> m" using n sm by (intro of_nat_ne_negative) simp_all
  have "(of_nat (Suc n) :: int64) = of_nat (2 ^ 63)" by (simp only: assms(1))
  also have "\<dots> = m" unfolding assms(2) by simp
  finally have w: "?v + 1 = m" by (simp add: add.commute)
  have "run (m # map of_nat [0 ..< Suc n]) = commitStep (run (m # map of_nat [0 ..< n])) ?v"
    using run_snoc [of "m # map of_nat [0 ..< n]" ?v] by simp
  also have "\<dots> = \<lparr>commits = {}, committed = m\<rparr>"
    unfolding r using ne w by (rule step_wraps)
  finally show ?thesis .
qed

lemma Suc_max63: "Suc (2 ^ 63 - 1) = 2 ^ 63"
  by simp

lemma wrapped_run:
  "run (- (2 ^ 63) # map of_nat [0 ..< 2 ^ 63]) = \<lparr>commits = {}, committed = - (2 ^ 63)\<rparr>"
  using negative_then_all [of "2 ^ 63 - 1" "- (2 ^ 63)", OF Suc_max63 refl]
  by (simp only: Suc_max63)

lemma unwrapped_run:
  "run (- (2 ^ 63) # map of_nat [0 ..< 2 ^ 63 - 1]) 
     = \<lparr>commits = {- (2 ^ 63)}, committed = of_nat (2 ^ 63 - 1) - 1\<rparr>"
  by (rule negative_then_counting) simp_all

lemma sint_wm_before_wrap: "sint (of_nat (2 ^ 63 - 1) - 1 :: int64) = 2 ^ 63 - 2"
  by simp

lemma distinct_negative_then_counting:
  assumes "n \<le> 2 ^ 63" "sint m < 0"
  shows "distinct (m # map of_nat [0 ..< n] :: int64 list)"
proof -
  have "inj_on (of_nat :: nat \<Rightarrow> int64) (set [0 ..< n])"
  proof (rule inj_onI)
    fix a b :: nat assume "a \<in> set [0 ..< n]" "b \<in> set [0 ..< n]"
    with assms(1) have "a < 2 ^ 63" "b < 2 ^ 63" by simp_all
    then have "sint (of_nat a :: int64) = int a" "sint (of_nat b :: int64) = int b"
      by (simp_all add: sint_of_nat64)
    moreover assume "(of_nat a :: int64) = of_nat b"
    ultimately have "int a = int b" by metis
    then show "a = b" by (simp only: of_nat_eq_iff)
  qed
  then have "distinct (map of_nat [0 ..< n] :: int64 list)" by (simp add: distinct_map)
  moreover have "m \<notin> set (map of_nat [0 ..< n])"
  proof
    assume "m \<in> set (map of_nat [0 ..< n])"
    then obtain k where k: "k < n" "m = of_nat k" by auto
    from k(1) assms(1) have "k < 2 ^ 63" by simp
    then have "of_nat k \<noteq> m" using assms(2) by (rule of_nat_ne_negative)
    with k(2) show False by simp
  qed
  ultimately show ?thesis by simp
qed

section \<open>Completeness\<close>

text \<open>
  C1: \<^verbatim>\<open>numMsgs\<close> goroutines each send their own offset once, so the offsets reach the
  channel as some permutation of \<open>0, \<dots>, numMsgs - 1\<close>. Whatever the permutation, once
  all of them have been processed one at a time the watermark is \<open>numMsgs - 1\<close>; any two
  arrival orders of the same offsets end with the same watermark.
\<close>

theorem completeness:
  assumes "0 \<le> sint numMsgs" "mset vals = mset (producers numMsgs)"
  shows "sint (committed (run vals)) = sint numMsgs - 1
    \<and> (\<forall>vals'. mset vals' = mset vals \<longrightarrow> committed (run vals') = committed (run vals))"
proof -
  have w: "sint (committed (run xs)) = sint numMsgs - 1" if "mset xs = mset (producers numMsgs)" for xs
  proof -
    from that have "set xs = set (producers numMsgs)" by (rule mset_eq_setD)
    with assms(1) show ?thesis by (rule wm_all_producers)
  qed
  have "committed (run vals') = committed (run vals)" if "mset vals' = mset vals" for vals'
  proof -
    from that assms(2) have "sint (committed (run vals')) = sint numMsgs - 1" by (intro w) simp
    with w [OF assms(2)] show ?thesis by (intro sint_inj64) simp
  qed
  with w [OF assms(2)] show ?thesis by blast
qed

text \<open>
  C1 at five messages arriving in the order 2, 0, 1, 4, 3.
\<close>

theorem completeness_witness:
  "0 \<le> sint (5 :: int64) \<and> mset [2, 0, 1, 4, 3] = mset (producers 5)
    \<and> sint (committed (run [2, 0, 1, 4, 3])) = sint (5 :: int64) - 1"
proof -
  have h: "0 \<le> sint (5 :: int64)" by simp
  have p: "mset [2, 0, 1, 4, 3] = mset (producers 5)"
    by (simp add: producers_def upt_rec)
  from completeness [OF h p] h p show ?thesis by blast
qed

section \<open>Monotonicity\<close>

text \<open>
  C2, as stated: for every sequence of offsets, whatever their values, the watermark after
  the \<open>i\<close>-th offset is at least the watermark after the \<open>(i-1)\<close>-th. It fails once
  \<^verbatim>\<open>c + 1\<close> overflows: after the least \<^verbatim>\<open>int64\<close> and then \<open>0, \<dots>, 2\<^sup>6\<^sup>3 - 2\<close> the
  watermark is \<open>2\<^sup>6\<^sup>3 - 2\<close>; the next offset \<open>2\<^sup>6\<^sup>3 - 1\<close> takes it to \<open>- 2\<^sup>6\<^sup>3\<close>.
\<close>

theorem watermark_decreases_counterexample:
  "sint (committed (run (- (2 ^ 63) # map of_nat [0 ..< 2 ^ 63])))
     < sint (committed (run (- (2 ^ 63) # map of_nat [0 ..< 2 ^ 63 - 1])))"
  by (simp only: wrapped_run unwrapped_run aggregator.simps sint_wm_before_wrap) simp

text \<open>
  C2, for fewer than \<open>2\<^sup>6\<^sup>3\<close> offsets: for every sequence of fewer than \<open>2\<^sup>6\<^sup>3\<close> offsets,
  whatever their values, the watermark after the first \<open>i + 1\<close> offsets is at least the
  watermark after the first \<open>i\<close>.
\<close>

theorem watermark_monotone:
  assumes "length vals < 2 ^ 63" "i < length vals"
  shows "sint (committed (run (take i vals))) \<le> sint (committed (run (take (Suc i) vals)))"
proof -
  have t: "take (Suc i) vals = take i vals @ [vals ! i]"
    using assms(2) by (rule take_Suc_conv_app_nth)
  have "length (take (Suc i) vals) < 2 ^ 63" using assms(1) by simp
  then have "wrap_free (set (take (Suc i) vals))" by (rule wrap_free_length)
  then have w: "wrap_free (insert (vals ! i) (set (take i vals)))" by (simp add: t)
  then have "wrap_free (set (take i vals))" by (rule wrap_free_mono [rotated]) auto
  then have "agg_inv (set (take i vals)) (run (take i vals))" by (rule run_inv)
  with w show ?thesis unfolding t run_snoc by (rule commitStep_inv(2))
qed

text \<open>
  C2 at the third step of the arrival order 2, 0, 1, 4, 3.
\<close>

theorem watermark_monotone_witness:
  "length [2, 0, 1, 4, 3 :: int64] < 2 ^ 63 \<and> (2 :: nat) < length [2, 0, 1, 4, 3 :: int64]
    \<and> sint (committed (run (take 2 [2, 0, 1, 4, 3]))) \<le> sint (committed (run (take (Suc 2) [2, 0, 1, 4, 3])))"
proof -
  have h: "length [2, 0, 1, 4, 3 :: int64] < 2 ^ 63" by simp
  have i: "(2 :: nat) < length [2, 0, 1, 4, 3 :: int64]" by simp
  from watermark_monotone [OF h i] h i show ?thesis by blast
qed

section \<open>The watermark is the end of the contiguous prefix\<close>

text \<open>
  C3, as stated: after every commit step of every sequence, the watermark is the largest
  \<open>W\<close> such that every offset in \<open>[0, W]\<close> has been received. On the run that wraps
  around, offset 0 has been received and the watermark is below -1.
\<close>

theorem contiguous_prefix_counterexample:
  "0 \<in> sint ` set (- (2 ^ 63) # map of_nat [0 ..< 2 ^ 63] :: int64 list)
    \<and> sint (committed (run (- (2 ^ 63) # map of_nat [0 ..< 2 ^ 63]))) < - 1"
proof -
  have "(0 :: nat) \<in> set [0 ..< 2 ^ 63]" by simp
  then have "(of_nat 0 :: int64) \<in> of_nat ` set [0 ..< 2 ^ 63]" by (rule imageI)
  then have "(0 :: int64) \<in> set (- (2 ^ 63) # map of_nat [0 ..< 2 ^ 63])" by simp
  then have "sint (0 :: int64) \<in> sint ` set (- (2 ^ 63) # map of_nat [0 ..< 2 ^ 63] :: int64 list)"
    by (rule imageI)
  moreover have "sint (committed (run (- (2 ^ 63) # map of_nat [0 ..< 2 ^ 63]))) < - 1"
    by (simp only: wrapped_run aggregator.simps) simp
  ultimately show ?thesis by simp
qed

text \<open>
  C3, for fewer than \<open>2\<^sup>6\<^sup>3\<close> offsets: after every sequence of fewer than \<open>2\<^sup>6\<^sup>3\<close>
  offsets the watermark \<open>w\<close> is at least -1, every offset in \<open>[0, w]\<close> has been received,
  and \<open>w\<close> is the largest such value; it is -1 when offset 0 has not been received, and it
  is below every \<open>V\<close> for which some offset in \<open>[0, V]\<close> has not been received.
\<close>

theorem watermark_is_contiguous_prefix:
  assumes "length vals < 2 ^ 63"
  shows "- 1 \<le> sint (committed (run vals))
    \<and> (\<forall>k. 0 \<le> k \<and> k \<le> sint (committed (run vals)) \<longrightarrow> k \<in> sint ` set vals)
    \<and> (\<forall>W. (\<forall>k. 0 \<le> k \<and> k \<le> W \<longrightarrow> k \<in> sint ` set vals) \<longrightarrow> W \<le> sint (committed (run vals)))
    \<and> (0 \<notin> sint ` set vals \<longrightarrow> sint (committed (run vals)) = - 1)
    \<and> (\<forall>V k. 0 \<le> k \<and> k \<le> V \<and> k \<notin> sint ` set vals \<longrightarrow> sint (committed (run vals)) < V)"
proof -
  let ?w = "sint (committed (run vals))"
  have i: "agg_inv (set vals) (run vals)" using assms by (rule run_inv_length)
  then have lo: "- 1 \<le> ?w" by (rule wm_lower)
  have pre: "\<And>k. 0 \<le> k \<Longrightarrow> k \<le> ?w \<Longrightarrow> k \<in> sint ` set vals"
    using i by (rule inv_prefix)
  have big: "W \<le> ?w" if "\<forall>k. 0 \<le> k \<and> k \<le> W \<longrightarrow> k \<in> sint ` set vals" for W
    using i that by (intro wm_largest [of "set vals"]) simp_all
  have gap: "?w < k" if "0 \<le> k" "k \<notin> sint ` set vals" for k
    using i that by (rule wm_below_gap)
  have zero: "?w = - 1" if "0 \<notin> sint ` set vals"
    using gap [of 0] that lo by simp
  have over: "?w < V" if "0 \<le> k" "k \<le> V" "k \<notin> sint ` set vals" for V k
    using gap [of k] that by simp
  from lo pre big zero over show ?thesis by blast
qed

text \<open>
  C3 after the offsets 2, 0, 1, 4.
\<close>

theorem watermark_is_contiguous_prefix_witness:
  "length [2, 0, 1, 4 :: int64] < 2 ^ 63
    \<and> (0 :: int) \<le> 2 \<and> 2 \<le> sint (committed (run [2, 0, 1, 4]))
    \<and> 2 \<in> sint ` set [2, 0, 1, 4 :: int64]
    \<and> 3 \<notin> sint ` set [2, 0, 1, 4 :: int64]
    \<and> sint (committed (run [2, 0, 1, 4])) < 5"
proof -
  have h: "length [2, 0, 1, 4 :: int64] < 2 ^ 63" by simp
  have r: "sint (committed (run [2, 0, 1, 4])) = 2"
    by (simp add: run_def init_def commitStep_def absorb.simps)
  have m: "3 \<notin> sint ` set [2, 0, 1, 4 :: int64]" by simp
  have k0: "(0 :: int) \<le> 2" by simp
  have k1: "2 \<le> sint (committed (run [2, 0, 1, 4]))" by (simp only: r)
  from k0 k1 have k: "(0 :: int) \<le> 2 \<and> 2 \<le> sint (committed (run [2, 0, 1, 4]))" by (rule conjI)
  have v: "(0 :: int) \<le> 3 \<and> (3 :: int) \<le> 5 \<and> 3 \<notin> sint ` set [2, 0, 1, 4 :: int64]"
    using m by simp
  from watermark_is_contiguous_prefix [OF h]
  have a: "\<forall>k. 0 \<le> k \<and> k \<le> sint (committed (run [2, 0, 1, 4])) \<longrightarrow> k \<in> sint ` set [2, 0, 1, 4 :: int64]"
    and b: "\<forall>V k. 0 \<le> k \<and> k \<le> V \<and> k \<notin> sint ` set [2, 0, 1, 4 :: int64]
          \<longrightarrow> sint (committed (run [2, 0, 1, 4])) < V"
    by (rule conjunct1 [OF conjunct2], rule conjunct2 [OF conjunct2 [OF conjunct2 [OF conjunct2]]])
  from a [THEN spec, of 2] k have c: "2 \<in> sint ` set [2, 0, 1, 4 :: int64]" by (rule mp)
  from b [THEN spec, of 5, THEN spec, of 3] v
  have d: "sint (committed (run [2, 0, 1, 4])) < 5" by (rule mp)
  from h k0 k1 c m d show ?thesis by (intro conjI)
qed

section \<open>Scenario A\<close>

text \<open>
  C4, as stated: with five messages received in the order 2, 0, 1, 4, 3 the values stored
  into \<^verbatim>\<open>committed\<close> after the five receptions are -1, 0, 1, 1, 4. They are not: when
  offset 1 arrives, offset 2 is already in the map, and the loop absorbs both.
\<close>

theorem scenario_A_counterexample:
  "map sint (watermarks init [2, 0, 1, 4, 3]) \<noteq> [- 1, 0, 1, 1, 4]"
  by (simp add: init_def commitStep_def absorb.simps)

text \<open>
  C4, with the values the loop stores: with five messages received in the order
  2, 0, 1, 4, 3 the values stored into \<^verbatim>\<open>committed\<close> after the five receptions are
  -1, 0, 2, 2, 4.
\<close>

theorem scenario_A_watermarks:
  "map sint (watermarks init [2, 0, 1, 4, 3]) = [- 1, 0, 2, 2, 4]"
  by (simp add: init_def commitStep_def absorb.simps)

section \<open>Duplicate offsets\<close>

text \<open>
  C5, as stated: processing an offset that is already in the map, or already at or below
  the watermark, leaves the map and the watermark unchanged. The assignment
  \<^verbatim>\<open>commits[val] = struct{}{}\<close> is not guarded by the watermark: offset 0, received again
  after it has been absorbed, enters the map.
\<close>

theorem duplicate_changes_pending_counterexample:
  "0 \<le> sint (0 :: int64) \<and> sint (0 :: int64) \<le> sint (committed (run [0]))
    \<and> commits (commitStep (run [0]) 0) \<noteq> commits (run [0])"
  by (simp add: run_def init_def commitStep_def absorb.simps)

text \<open>
  C5, as the loop behaves: processing an offset that is already in the map leaves the map
  and the watermark unchanged; processing an offset of the absorbed prefix
  (\<open>0 \<le> v \<le> watermark\<close>) leaves the watermark unchanged and puts the offset into the
  map; and in a sequence of fewer than \<open>2\<^sup>6\<^sup>3\<close> offsets, an offset received a second time
  does not change the watermark reached at the end. \<^const>\<open>commitStep\<close> has no failing
  branch: insertion, lookup and deletion on a Go map do not fail.
\<close>

theorem duplicate_offset:
  "(v \<in> commits (run vals) \<longrightarrow> commitStep (run vals) v = run vals)
    \<and> (0 \<le> sint v \<and> sint v \<le> sint (committed (run vals)) \<longrightarrow>
          committed (commitStep (run vals) v) = committed (run vals)
          \<and> commits (commitStep (run vals) v) = insert v (commits (run vals)))
    \<and> (v \<in> set vals \<and> length (vals @ v # rest) < 2 ^ 63 \<longrightarrow>
          committed (run (vals @ v # rest)) = committed (run (vals @ rest)))"
proof (intro conjI impI)
  assume p: "v \<in> commits (run vals)"
  with run_exit [of vals] have "v \<noteq> committed (run vals) + 1" by auto
  with run_exit [of vals]
  have "commitStep (run vals) v
      = \<lparr>commits = insert v (commits (run vals)), committed = committed (run vals)\<rparr>"
    by (rule commitStep_idle)
  with p show "commitStep (run vals) v = run vals" by (simp add: insert_absorb)
next
  assume "0 \<le> sint v \<and> sint v \<le> sint (committed (run vals))"
  then have "v \<in> absorbed (committed (run vals))" by (simp add: absorbed_def)
  with succ_notin_absorbed [of "committed (run vals)"]
  have "v \<noteq> committed (run vals) + 1" by auto
  with run_exit [of vals]
  have e: "commitStep (run vals) v
      = \<lparr>commits = insert v (commits (run vals)), committed = committed (run vals)\<rparr>"
    by (rule commitStep_idle)
  from e show "committed (commitStep (run vals) v) = committed (run vals)" by simp
  from e show "commits (commitStep (run vals) v) = insert v (commits (run vals))" by simp
next
  assume a: "v \<in> set vals \<and> length (vals @ v # rest) < 2 ^ 63"
  then have "agg_inv (set (vals @ v # rest)) (run (vals @ v # rest))"
    by (intro run_inv_length) simp
  moreover from a have "agg_inv (set (vals @ rest)) (run (vals @ rest))"
    by (intro run_inv_length) simp
  moreover from a have "set (vals @ v # rest) = set (vals @ rest)" by auto
  ultimately show "committed (run (vals @ v # rest)) = committed (run (vals @ rest))"
    by (intro inv_unique [of "set (vals @ rest)"]) simp_all
qed

text \<open>
  C5 at offset 0 received a third time after 0, 0, and followed by offset 1.
\<close>

theorem duplicate_offset_witness:
  "(0 :: int64) \<in> commits (run [0, 0]) \<and> commitStep (run [0, 0]) 0 = run [0, 0]
    \<and> 0 \<le> sint (0 :: int64) \<and> sint (0 :: int64) \<le> sint (committed (run [0, 0]))
    \<and> committed (commitStep (run [0, 0]) 0) = committed (run [0, 0])
    \<and> commits (commitStep (run [0, 0]) 0) = insert 0 (commits (run [0, 0]))
    \<and> (0 :: int64) \<in> set [0, 0] \<and> length ([0, 0] @ (0 :: int64) # [1]) < 2 ^ 63
    \<and> committed (run ([0, 0] @ 0 # [1])) = committed (run ([0, 0] @ [1]))"
proof -
  have r: "run [0, 0] = \<lparr>commits = {0}, committed = 0\<rparr>"
    by (simp add: run_def init_def commitStep_def absorb.simps)
  have a: "(0 :: int64) \<in> commits (run [0, 0])" by (simp add: r)
  have b: "0 \<le> sint (0 :: int64) \<and> sint (0 :: int64) \<le> sint (committed (run [0, 0]))"
    by (simp add: r)
  have c: "(0 :: int64) \<in> set [0, 0] \<and> length ([0, 0] @ (0 :: int64) # [1]) < 2 ^ 63" by simp
  from duplicate_offset [of 0 "[0, 0]" "[1]"] a b c show ?thesis by blast
qed

section \<open>The map and the watermark\<close>

text \<open>
  C6, as stated: at every point of every sequence, every offset in the map is strictly
  greater than the watermark. After -5, 0, 0 the map holds -5 and 0 and the watermark
  is 0: a negative offset is never absorbed, and an offset received again after it has been
  absorbed stays in the map.
\<close>

theorem pending_below_watermark_counterexample:
  "- 5 \<in> commits (run [- 5, 0, 0]) \<and> sint (- 5 :: int64) \<le> sint (committed (run [- 5, 0, 0]))
    \<and> 0 \<in> commits (run [- 5, 0, 0]) \<and> sint (0 :: int64) \<le> sint (committed (run [- 5, 0, 0]))"
  by (simp add: run_def init_def commitStep_def absorb.simps)

text \<open>
  C6, for distinct non-negative offsets: at every point of a sequence of distinct,
  non-negative offsets, every offset in the map is strictly greater than the watermark.
\<close>

theorem pending_above_watermark:
  assumes "distinct vals" "\<forall>x \<in> set vals. 0 \<le> sint x" "x \<in> commits (run vals)"
  shows "sint (committed (run vals)) < sint x"
proof -
  from assms(2) have w: "wrap_free (set vals)" by (intro wrap_free_nonneg) simp
  then have "agg_inv (set vals) (run vals)" by (rule run_inv)
  with assms(3) have "x \<in> set vals" by (auto simp: agg_inv_def)
  with assms(2) have "0 \<le> sint x" by simp
  moreover from run_disjoint [OF w assms(1)] assms(3)
  have "x \<notin> absorbed (committed (run vals))" by auto
  ultimately show ?thesis by (simp add: absorbed_def)
qed

text \<open>
  C6 after the offsets 2, 0, 4, for offset 4 in the map.
\<close>

theorem pending_above_watermark_witness:
  "distinct [2, 0, 4 :: int64] \<and> 0 \<le> sint (2 :: int64) \<and> 0 \<le> sint (0 :: int64)
    \<and> 0 \<le> sint (4 :: int64) \<and> 4 \<in> commits (run [2, 0, 4])
    \<and> sint (committed (run [2, 0, 4])) < sint (4 :: int64)"
proof -
  have d: "distinct [2, 0, 4 :: int64]" by simp
  have n2: "0 \<le> sint (2 :: int64)" and n0: "0 \<le> sint (0 :: int64)"
    and n4: "0 \<le> sint (4 :: int64)" by simp_all
  from n2 n0 n4 have n: "\<forall>x \<in> set [2, 0, 4 :: int64]. 0 \<le> sint x" by simp
  have p: "4 \<in> commits (run [2, 0, 4])"
    by (simp add: run_def init_def commitStep_def absorb.simps)
  have w: "sint (committed (run [2, 0, 4])) < sint (4 :: int64)"
    using d n p by (rule pending_above_watermark)
  from d n2 n0 n4 p w show ?thesis by (intro conjI)
qed

section \<open>Size of the map\<close>

text \<open>
  C7, as stated: with distinct offsets from \<open>0, \<dots>, N - 1\<close>, the map is empty exactly
  when the watermark is \<open>N - 1\<close>. With \<open>N = 3\<close>, after offset 0 alone the map is empty
  and the watermark is 0.
\<close>

theorem pending_empty_counterexample:
  "distinct [0 :: int64] \<and> set [0] \<subseteq> set (producers 3) \<and> commits (run [0]) = {}
    \<and> sint (committed (run [0])) \<noteq> sint (3 :: int64) - 1"
  by (simp add: producers_def upt_rec run_def init_def commitStep_def absorb.simps)

text \<open>
  C7, as the loop behaves: with distinct offsets from \<open>0, \<dots>, numMsgs - 1\<close>, at every
  point the size of the map is the number of offsets received so far minus
  \<open>watermark + 1\<close> (so it is at most that); the map is empty when the watermark is
  \<open>numMsgs - 1\<close>; and it is empty exactly when \<open>watermark + 1\<close> is the number of offsets
  received so far.
\<close>

theorem pending_size:
  assumes "0 \<le> sint numMsgs" "distinct vals" "set vals \<subseteq> set (producers numMsgs)"
  shows "int (card (commits (run vals))) = int (length vals) - (sint (committed (run vals)) + 1)
    \<and> (sint (committed (run vals)) = sint numMsgs - 1 \<longrightarrow> commits (run vals) = {})
    \<and> (commits (run vals) = {} \<longleftrightarrow> sint (committed (run vals)) + 1 = int (length vals))"
proof -
  have "sint x \<in> {0 ..< sint numMsgs}" if "x \<in> set vals" for x
    using that assms(3) sint_producers [OF assms(1)] by blast
  then have "wrap_free (set vals)" by (intro wrap_free_nonneg) simp
  then have c: "int (card (commits (run vals)))
      = int (length vals) - (sint (committed (run vals)) + 1)"
    using assms(2) by (rule card_pending)
  have "length vals = card (set vals)" using assms(2) by (simp add: distinct_card)
  also have "\<dots> \<le> card (set (producers numMsgs))" using assms(3) by (intro card_mono) simp_all
  also have "\<dots> \<le> length (producers numMsgs)" by (rule card_length)
  also have "\<dots> = nat (sint numMsgs)" by (simp add: producers_def)
  finally have l: "int (length vals) \<le> sint numMsgs" using assms(1) by simp
  have e: "commits (run vals) = {} \<longleftrightarrow> int (card (commits (run vals))) = 0" by simp
  have "commits (run vals) = {}" if "sint (committed (run vals)) = sint numMsgs - 1"
  proof -
    from c l that have "int (card (commits (run vals))) = 0" by simp
    then show ?thesis by (simp only: e)
  qed
  moreover have "commits (run vals) = {} \<longleftrightarrow> sint (committed (run vals)) + 1 = int (length vals)"
    unfolding e c by auto
  ultimately show ?thesis using c by blast
qed

text \<open>
  C7 with five messages, after the offsets 2, 0, 4.
\<close>

theorem pending_size_witness:
  "0 \<le> sint (5 :: int64) \<and> distinct [2, 0, 4 :: int64] \<and> set [2, 0, 4] \<subseteq> set (producers 5)
    \<and> int (card (commits (run [2, 0, 4]))) = int (length [2, 0, 4 :: int64]) - (sint (committed (run [2, 0, 4])) + 1)"
proof -
  have h: "0 \<le> sint (5 :: int64)" by simp
  have d: "distinct [2, 0, 4 :: int64]" by simp
  have s: "set [2, 0, 4] \<subseteq> set (producers 5)" by (simp add: producers_def upt_rec)
  from pending_size [OF h d s] h d s show ?thesis by blast
qed

section \<open>Offsets out of range\<close>

text \<open>
  C8, as stated: an offset that is negative or at least \<open>N\<close> is never absorbed, so the
  watermark never exceeds \<open>N - 1\<close>. The loop does not know \<open>N\<close>: with \<open>N = 3\<close>, after
  0, 1, 2, 3 the offset 3 has been absorbed and the watermark is 3.
\<close>

theorem out_of_range_absorbed_counterexample:
  "sint (3 :: int64) \<le> sint (3 :: int64) \<and> 3 \<in> set [0, 1, 2, 3 :: int64]
    \<and> committed (run [0, 1, 2, 3]) = 3
    \<and> sint (3 :: int64) - 1 < sint (committed (run [0, 1, 2, 3]))"
  by (simp add: run_def init_def commitStep_def absorb.simps)

text \<open>
  C8, as the loop behaves, for fewer than \<open>2\<^sup>6\<^sup>3\<close> offsets: every negative offset
  received stays in the map, and the watermark is at least -1; the watermark reaches a
  non-negative offset \<open>v\<close> exactly when every offset in \<open>[0, v]\<close> has been received; and
  as long as offset \<open>numMsgs\<close> itself has not been received the watermark is at most
  \<open>numMsgs - 1\<close>.
\<close>

theorem out_of_range_offsets:
  assumes "length vals < 2 ^ 63"
  shows "(\<forall>v \<in> set vals. sint v < 0 \<longrightarrow> v \<in> commits (run vals))
    \<and> - 1 \<le> sint (committed (run vals))
    \<and> (\<forall>v. 0 \<le> sint v \<longrightarrow>
          (sint v \<le> sint (committed (run vals))
            \<longleftrightarrow> (\<forall>k. 0 \<le> k \<and> k \<le> sint v \<longrightarrow> k \<in> sint ` set vals)))
    \<and> (0 \<le> sint numMsgs \<and> numMsgs \<notin> set vals \<longrightarrow> sint (committed (run vals)) \<le> sint numMsgs - 1)"
proof -
  let ?w = "sint (committed (run vals))"
  have i: "agg_inv (set vals) (run vals)" using assms by (rule run_inv_length)
  have neg: "v \<in> commits (run vals)" if "v \<in> set vals" "sint v < 0" for v
  proof -
    from that(2) have "v \<notin> absorbed (committed (run vals))" by (simp add: absorbed_def)
    with i that(1) show ?thesis by (auto simp: agg_inv_def)
  qed
  have lo: "- 1 \<le> ?w" using i by (rule wm_lower)
  have reach: "sint v \<le> ?w \<longleftrightarrow> (\<forall>k. 0 \<le> k \<and> k \<le> sint v \<longrightarrow> k \<in> sint ` set vals)" for v
  proof
    assume "sint v \<le> ?w"
    then show "\<forall>k. 0 \<le> k \<and> k \<le> sint v \<longrightarrow> k \<in> sint ` set vals"
      using inv_prefix [OF i] by simp
  next
    assume "\<forall>k. 0 \<le> k \<and> k \<le> sint v \<longrightarrow> k \<in> sint ` set vals"
    then show "sint v \<le> ?w" using i by (intro wm_largest [of "set vals"]) simp_all
  qed
  have top: "?w \<le> sint numMsgs - 1" if "0 \<le> sint numMsgs" "numMsgs \<notin> set vals"
  proof -
    from that(2) have "sint numMsgs \<notin> sint ` set vals" by (auto dest: sint_inj64)
    with i that(1) have "?w < sint numMsgs" by (rule wm_below_gap)
    then show ?thesis by simp
  qed
  from neg lo reach top show ?thesis by blast
qed

text \<open>
  C8 after the offsets -5, 0, 7 with three messages expected.
\<close>

theorem out_of_range_offsets_witness:
  "length [- 5, 0, 7 :: int64] < 2 ^ 63
    \<and> - 5 \<in> set [- 5, 0, 7 :: int64] \<and> sint (- 5 :: int64) < 0
    \<and> - 5 \<in> commits (run [- 5, 0, 7])
    \<and> 0 \<le> sint (3 :: int64) \<and> 3 \<notin> set [- 5, 0, 7 :: int64]
    \<and> sint (committed (run [- 5, 0, 7])) \<le> sint (3 :: int64) - 1"
proof -
  have h: "length [- 5, 0, 7 :: int64] < 2 ^ 63" by simp
  have a1: "- 5 \<in> set [- 5, 0, 7 :: int64]" by simp
  have a2: "sint (- 5 :: int64) < 0" by simp
  have b0: "0 \<le> sint (3 :: int64)" by simp
  have b1: "3 \<notin> set [- 5, 0, 7 :: int64]" by simp
  from b0 b1 have b: "0 \<le> sint (3 :: int64) \<and> 3 \<notin> set [- 5, 0, 7 :: int64]" by (rule conjI)
  from out_of_range_offsets [OF h, of 3]
  have n: "\<forall>v \<in> set [- 5, 0, 7 :: int64]. sint v < 0 \<longrightarrow> v \<in> commits (run [- 5, 0, 7])"
    and t: "0 \<le> sint (3 :: int64) \<and> 3 \<notin> set [- 5, 0, 7 :: int64]
          \<longrightarrow> sint (committed (run [- 5, 0, 7])) \<le> sint (3 :: int64) - 1"
    by (rule conjunct1, rule conjunct2 [OF conjunct2 [OF conjunct2]])
  from n [THEN bspec, OF a1] a2 have c: "- 5 \<in> commits (run [- 5, 0, 7])" by (rule mp)
  from t b have d: "sint (committed (run [- 5, 0, 7])) \<le> sint (3 :: int64) - 1" by (rule mp)
  from h a1 a2 c b0 b1 d show ?thesis by (intro conjI)
qed

section \<open>Termination of the loop\<close>

text \<open>
  C9: the loop leaves for every map, \<^verbatim>\<open>c\<close> and \<^verbatim>\<open>next\<close>: a budget of more
  evaluations of its condition than the map has keys is never used up, and the result is
  the value of \<^const>\<open>absorb\<close>. So the loop body runs at most once per key of the map.
\<close>

theorem absorb_terminates:
  "card cs < fuel \<Longrightarrow> absorbFuel fuel cs c n = Some (absorb cs c n)"
proof (induction fuel arbitrary: cs c n)
  case 0
  then show ?case by simp
next
  case (Suc fuel)
  show ?case
  proof (cases "n \<in> cs")
    case False
    then show ?thesis by (simp add: absorb.simps [of cs c n])
  next
    case True
    then have "card (cs - {n}) < card cs" by (intro card_Diff1_less) simp_all
    with Suc.prems have "card (cs - {n}) < fuel" by simp
    then have "absorbFuel fuel (cs - {n}) n (n + 1) = Some (absorb (cs - {n}) n (n + 1))"
      by (rule Suc.IH)
    with True show ?thesis by (simp add: absorb.simps [of cs c n])
  qed
qed

text \<open>
  C9 on the map \<open>{1, 2, 4}\<close> with \<^verbatim>\<open>c = 0\<close>: two iterations.
\<close>

theorem absorb_terminates_witness:
  "card {1, 2, 4 :: int64} < 4
    \<and> absorbFuel 4 {1, 2, 4} 0 1 = Some (absorb {1, 2, 4} 0 1)
    \<and> absorb {1, 2, 4} 0 1 = ({4}, 2)"
proof -
  have h: "card {1, 2, 4 :: int64} < 4" by simp
  have "absorb {1, 2, 4} 0 1 = ({4 :: int64}, 2)" by (simp add: absorb.simps)
  with absorb_terminates [OF h, of 0 1] h show ?thesis by blast
qed

section \<open>The next offset is never left in the map\<close>

text \<open>
  C10, as stated: for sequences of distinct offsets, a commit step advances the watermark
  if and only if the offset it processes is \<open>watermark + 1\<close>. On the run that wraps
  around, whose offsets are distinct, the last step processes \<open>watermark + 1\<close> and the
  watermark goes down.
\<close>

theorem advance_counterexample:
  "distinct (- (2 ^ 63) # map of_nat [0 ..< 2 ^ 63] :: int64 list)
    \<and> of_nat (2 ^ 63 - 1) = committed (run (- (2 ^ 63) # map of_nat [0 ..< 2 ^ 63 - 1])) + 1
    \<and> sint (committed (commitStep (run (- (2 ^ 63) # map of_nat [0 ..< 2 ^ 63 - 1])) (of_nat (2 ^ 63 - 1))))
        < sint (committed (run (- (2 ^ 63) # map of_nat [0 ..< 2 ^ 63 - 1])))"
proof -
  have d: "distinct (- (2 ^ 63) # map of_nat [0 ..< 2 ^ 63] :: int64 list)"
    by (rule distinct_negative_then_counting) simp_all
  have s: "commitStep (run (- (2 ^ 63) # map of_nat [0 ..< 2 ^ 63 - 1])) (of_nat (2 ^ 63 - 1))
      = run (- (2 ^ 63) # map of_nat [0 ..< 2 ^ 63])"
    using run_snoc [of "- (2 ^ 63) # map of_nat [0 ..< 2 ^ 63 - 1]" "of_nat (2 ^ 63 - 1)", symmetric]
      upt_Suc_append [of 0 "2 ^ 63 - 1"]
    by (simp only: Suc_max63 map_append list.map append_Cons le0 if_True)
  have "of_nat (2 ^ 63 - 1) = committed (run (- (2 ^ 63) # map of_nat [0 ..< 2 ^ 63 - 1])) + 1"
    by (simp only: unwrapped_run aggregator.simps) simp
  moreover have "sint (committed (commitStep (run (- (2 ^ 63) # map of_nat [0 ..< 2 ^ 63 - 1])) (of_nat (2 ^ 63 - 1))))
        < sint (committed (run (- (2 ^ 63) # map of_nat [0 ..< 2 ^ 63 - 1])))"
    unfolding s by (simp only: wrapped_run unwrapped_run aggregator.simps sint_wm_before_wrap) simp
  ultimately show ?thesis using d by blast
qed

text \<open>
  C10, for fewer than \<open>2\<^sup>6\<^sup>3\<close> offsets: after every commit step, from any state,
  \<open>watermark + 1\<close> is not in the map; and after fewer than \<open>2\<^sup>6\<^sup>3 - 1\<close> offsets, distinct
  or not, the next commit step raises the watermark if and only if the offset it processes
  is \<open>watermark + 1\<close>, and leaves it unchanged otherwise.
\<close>

theorem next_not_pending_and_advance:
  "committed (commitStep s v) + 1 \<notin> commits (commitStep s v)
    \<and> (Suc (length vals) < 2 ^ 63 \<longrightarrow>
        (sint (committed (run vals)) < sint (committed (commitStep (run vals) v))
          \<longleftrightarrow> v = committed (run vals) + 1)
        \<and> (v \<noteq> committed (run vals) + 1 \<longrightarrow>
            committed (commitStep (run vals) v) = committed (run vals)))"
proof (intro conjI impI)
  show "committed (commitStep s v) + 1 \<notin> commits (commitStep s v)" by (rule commitStep_exit)
next
  assume l: "Suc (length vals) < 2 ^ 63"
  then have "length (vals @ [v]) < 2 ^ 63" by simp
  then have "wrap_free (set (vals @ [v]))" by (rule wrap_free_length)
  then have w: "wrap_free (insert v (set vals))" by simp
  from l have i: "agg_inv (set vals) (run vals)" by (intro run_inv_length) simp
  show "sint (committed (run vals)) < sint (committed (commitStep (run vals) v))
      \<longleftrightarrow> v = committed (run vals) + 1"
  proof
    assume "v = committed (run vals) + 1"
    with w i show "sint (committed (run vals)) < sint (committed (commitStep (run vals) v))"
      by (rule commitStep_advances)
  next
    assume a: "sint (committed (run vals)) < sint (committed (commitStep (run vals) v))"
    show "v = committed (run vals) + 1"
    proof (rule ccontr)
      assume "v \<noteq> committed (run vals) + 1"
      with run_exit [of vals]
      have "commitStep (run vals) v
          = \<lparr>commits = insert v (commits (run vals)), committed = committed (run vals)\<rparr>"
        by (rule commitStep_idle)
      with a show False by simp
    qed
  qed
next
  assume "v \<noteq> committed (run vals) + 1"
  with run_exit [of vals]
  have "commitStep (run vals) v
      = \<lparr>commits = insert v (commits (run vals)), committed = committed (run vals)\<rparr>"
    by (rule commitStep_idle)
  then show "committed (commitStep (run vals) v) = committed (run vals)" by simp
qed

text \<open>
  C10 at offset 1 received after 2, 0.
\<close>

theorem next_not_pending_and_advance_witness:
  "committed (commitStep (run [2, 0]) 1) + 1 \<notin> commits (commitStep (run [2, 0]) 1)
    \<and> Suc (length [2, 0 :: int64]) < 2 ^ 63
    \<and> 1 = committed (run [2, 0]) + 1
    \<and> sint (committed (run [2, 0])) < sint (committed (commitStep (run [2, 0]) 1))"
proof -
  have h: "Suc (length [2, 0 :: int64]) < 2 ^ 63" by simp
  have e: "1 = committed (run [2, 0]) + 1"
    by (simp add: run_def init_def commitStep_def absorb.simps)
  from next_not_pending_and_advance [of "run [2, 0]" 1 "[2, 0]"] h e show ?thesis by blast
qed

end
